theory Spec2Isabelle
  imports Main "HOL-Library.Multiset"
begin

section \<open>Events and their order\<close>

text \<open>
  \<^verbatim>\<open>time_t\<close> values are only ever compared by the calendar service, never added or
  subtracted, so they are modelled as integers with their usual order. The \<^verbatim>\<open>int\<close>
  identifier is a 32-bit two's-complement value; the only arithmetic on it is the
  post-increment of the counter, written out below with its wrap-around.
\<close>

type_synonym time_t = int

record Event =
  event_id :: int
  title :: string
  start_utc :: time_t
  end_utc :: time_t

text \<open>\<^verbatim>\<open>EventComparator::operator()\<close>: by start, then by identifier.\<close>

definition EventComparator :: "Event \<Rightarrow> Event \<Rightarrow> bool" where
  "EventComparator a b =
     (if start_utc a \<noteq> start_utc b then start_utc a < start_utc b
      else event_id a < event_id b)"

section \<open>The ordered container\<close>

text \<open>
  \<^verbatim>\<open>std::set<Event, EventComparator>\<close> is represented by its in-order sequence of
  elements. An iterator is a position in that sequence: \<^verbatim>\<open>begin()\<close> is \<open>0\<close>, \<^verbatim>\<open>end()\<close>
  is the length, \<^verbatim>\<open>*it\<close> is \<open>xs ! it\<close> (only read when \<open>it\<close> is not \<^verbatim>\<open>end()\<close>).
\<close>

text \<open>\<^verbatim>\<open>lower_bound(k)\<close>: the first position whose element is not ordered before \<open>k\<close>.\<close>

fun lower_bound :: "Event list \<Rightarrow> Event \<Rightarrow> nat" where
  "lower_bound [] k = 0"
| "lower_bound (x # xs) k = (if EventComparator x k then Suc (lower_bound xs k) else 0)"

text \<open>
  \<^verbatim>\<open>insert(v)\<close>: \<open>v\<close> goes to its place in the order; when an equivalent element (neither
  ordered before the other) is already present, the container is left as it is.
\<close>

fun set_insert :: "Event \<Rightarrow> Event list \<Rightarrow> Event list" where
  "set_insert v [] = [v]"
| "set_insert v (x # xs) =
     (if EventComparator v x then v # x # xs
      else if EventComparator x v then x # set_insert v xs
      else x # xs)"

text \<open>\<^verbatim>\<open>erase(it)\<close>: removes the element at the position.\<close>

definition set_erase :: "nat \<Rightarrow> Event list \<Rightarrow> Event list" where
  "set_erase it xs = take it xs @ drop (Suc it) xs"

section \<open>The calendar service\<close>

record CalendarService =
  events :: "Event list"
  next_event_id :: int

text \<open>The constructor: no events, counter at 1.\<close>

definition CalendarService_init :: CalendarService where
  "CalendarService_init = \<lparr>events = [], next_event_id = 1\<rparr>"

text \<open>
  The increment of a 32-bit \<^verbatim>\<open>int\<close>. Past \<^verbatim>\<open>INT_MAX\<close> the language leaves the result
  undefined; the model takes the two's-complement wrap-around that the increment
  instruction produces.
\<close>

definition int_wrap :: "int \<Rightarrow> int" where
  "int_wrap x = (x + 2147483648) mod 4294967296 - 2147483648"

text \<open>\<^verbatim>\<open>return next_event_id_++;\<close>\<close>

definition getNextEventId :: "CalendarService \<Rightarrow> int \<times> CalendarService" where
  "getNextEventId st =
     (next_event_id st, st\<lparr>next_event_id := int_wrap (next_event_id st + 1)\<rparr>)"

text \<open>
  \<^verbatim>\<open>hasConflict\<close>: the overlap test on the element at the search position, then on the
  element just before it.
\<close>

definition hasConflict :: "CalendarService \<Rightarrow> time_t \<Rightarrow> time_t \<Rightarrow> bool" where
  "hasConflict st start_t end_t =
     (let search_event = \<lparr>event_id = 0, title = [], start_utc = start_t, end_utc = end_t\<rparr>;
          it = lower_bound (events st) search_event
      in if it \<noteq> length (events st) \<and>
            (start_t < end_utc (events st ! it) \<and> end_t > start_utc (events st ! it))
         then True
         else if it \<noteq> 0 \<and>
            (start_t < end_utc (events st ! (it - 1)) \<and> end_t > start_utc (events st ! (it - 1)))
         then True
         else False)"

text \<open>\<^verbatim>\<open>createEvent\<close>: the result \<open>-1\<close> is the failure value of the source.\<close>

definition createEvent ::
    "string \<Rightarrow> time_t \<Rightarrow> time_t \<Rightarrow> CalendarService \<Rightarrow> int \<times> CalendarService" where
  "createEvent ttl start_t end_t st =
     (if start_t \<ge> end_t then (- 1, st)
      else if hasConflict st start_t end_t then (- 1, st)
      else
        (let (new_id, st1) = getNextEventId st;
             new_event = \<lparr>event_id = new_id, title = ttl, start_utc = start_t, end_utc = end_t\<rparr>
         in (new_id, st1\<lparr>events := set_insert new_event (events st1)\<rparr>)))"

text \<open>
  \<^verbatim>\<open>findEventById\<close>: the linear scan from \<^verbatim>\<open>begin()\<close>; \<^verbatim>\<open>end()\<close> when nothing matches.
  A position never passes \<^verbatim>\<open>end()\<close>, so the loop test \<^verbatim>\<open>it != end()\<close> is \<open>it < length xs\<close>.
\<close>

function find_loop :: "Event list \<Rightarrow> nat \<Rightarrow> int \<Rightarrow> nat" where
  "find_loop xs it eid =
     (if it < length xs
      then (if event_id (xs ! it) = eid then it else find_loop xs (Suc it) eid)
      else length xs)"
  by pat_completeness auto
termination
  by (relation "measure (\<lambda>(xs, it, eid). length xs - it)") auto

declare find_loop.simps [simp del]

definition findEventById :: "CalendarService \<Rightarrow> int \<Rightarrow> nat" where
  "findEventById st eid = find_loop (events st) 0 eid"

definition deleteEvent :: "int \<Rightarrow> CalendarService \<Rightarrow> bool \<times> CalendarService" where
  "deleteEvent eid st =
     (let it = findEventById st eid
      in if it \<noteq> length (events st)
         then (True, st\<lparr>events := set_erase it (events st)\<rparr>)
         else (False, st))"

text \<open>
  The collecting loop of \<^verbatim>\<open>getWeeklyEvents\<close>: from position \<open>it\<close>, push events while
  they start before the end of the range.
\<close>

function weekly_loop :: "Event list \<Rightarrow> nat \<Rightarrow> time_t \<Rightarrow> Event list \<Rightarrow> Event list" where
  "weekly_loop xs it week_end result =
     (if it < length xs \<and> start_utc (xs ! it) < week_end
      then weekly_loop xs (Suc it) week_end (result @ [xs ! it])
      else result)"
  by pat_completeness auto
termination
  by (relation "measure (\<lambda>(xs, it, week_end, result). length xs - it)") auto

declare weekly_loop.simps [simp del]

definition getWeeklyEvents ::
    "time_t \<Rightarrow> time_t \<Rightarrow> CalendarService \<Rightarrow> Event list \<times> CalendarService" where
  "getWeeklyEvents week_start week_end st =
     (let search_start =
            \<lparr>event_id = 0, title = [], start_utc = week_start, end_utc = week_start\<rparr>;
          it = lower_bound (events st) search_start;
          result =
            (if it \<noteq> 0 \<and> end_utc (events st ! (it - 1)) > week_start
             then [events st ! (it - 1)] else [])
      in (weekly_loop (events st) it week_end result, st))"

text \<open>\<^verbatim>\<open>getAllEvents\<close>: the range-for loop pushes every element in container order.\<close>

definition getAllEvents :: "CalendarService \<Rightarrow> Event list \<times> CalendarService" where
  "getAllEvents st = (fold (\<lambda>event result. result @ [event]) (events st) [], st)"

section \<open>Sequences of operations\<close>

text \<open>The four operations the service offers to its caller, and what each returns.\<close>

datatype operation =
    Create string time_t time_t
  | Delete int
  | Weekly time_t time_t
  | Snapshot

datatype outcome =
    Created int
  | Deleted bool
  | Listed "Event list"

fun exec :: "operation \<Rightarrow> CalendarService \<Rightarrow> outcome \<times> CalendarService" where
  "exec (Create ttl s e) st = (let (r, st') = createEvent ttl s e st in (Created r, st'))"
| "exec (Delete eid) st = (let (b, st') = deleteEvent eid st in (Deleted b, st'))"
| "exec (Weekly ws we) st = (let (es, st') = getWeeklyEvents ws we st in (Listed es, st'))"
| "exec Snapshot st = (let (es, st') = getAllEvents st in (Listed es, st'))"

fun run :: "operation list \<Rightarrow> CalendarService \<Rightarrow> outcome list \<times> CalendarService" where
  "run [] st = ([], st)"
| "run (op # ops) st =
     (let (r, st') = exec op st; (rs, st'') = run ops st' in (r # rs, st''))"

section \<open>Invariants of the store\<close>

text \<open>A candidate interval conflicts with a stored event: the half-open overlap test.\<close>

definition conflicts_with :: "time_t \<Rightarrow> time_t \<Rightarrow> Event \<Rightarrow> bool" where
  "conflicts_with start_t end_t ev = (start_t < end_utc ev \<and> end_t > start_utc ev)"

definition overlap :: "Event \<Rightarrow> Event \<Rightarrow> bool" where
  "overlap a b = (start_utc a < end_utc b \<and> start_utc b < end_utc a)"

definition valid_intervals :: "Event list \<Rightarrow> bool" where
  "valid_intervals xs = (\<forall>ev \<in> set xs. start_utc ev < end_utc ev)"

definition non_overlapping :: "Event list \<Rightarrow> bool" where
  "non_overlapping xs =
     (\<forall>i < length xs. \<forall>j < length xs. i \<noteq> j \<longrightarrow> \<not> overlap (xs ! i) (xs ! j))"

text \<open>
  The container keeps its elements strictly ascending in the comparator's order; together
  with the two invariants of the specification this is the well-formed store.
\<close>

definition store_inv :: "Event list \<Rightarrow> bool" where
  "store_inv xs =
     (sorted_wrt EventComparator xs \<and> valid_intervals xs \<and> non_overlapping xs)"

text \<open>
  Each event ends no later than every later event starts: the shape the invariants give
  to the container's sequence.
\<close>

definition chained :: "Event list \<Rightarrow> bool" where
  "chained xs = sorted_wrt (\<lambda>a b. end_utc a \<le> start_utc b) xs"

section \<open>The operations as the specification words them\<close>

text \<open>The position of the first event carrying an identifier (the length when none does).\<close>

definition first_with_id :: "Event list \<Rightarrow> int \<Rightarrow> nat" where
  "first_with_id xs eid = length (takeWhile (\<lambda>ev. event_id ev \<noteq> eid) xs)"

text \<open>
  The conflict detector as the specification words it: locate the first stored event
  with start \<open>\<ge> s\<close>, test it and the event immediately before it.
\<close>

definition examine_neighbours :: "Event list \<Rightarrow> time_t \<Rightarrow> time_t \<Rightarrow> bool" where
  "examine_neighbours xs s e =
     (let p = length (takeWhile (\<lambda>ev. start_utc ev < s) xs)
      in (p < length xs \<and> conflicts_with s e (xs ! p)) \<or>
         (0 < p \<and> conflicts_with s e (xs ! (p - 1))))"

text \<open>The range query as the specification words it: the stored events that overlap the range.\<close>

definition in_range :: "time_t \<Rightarrow> time_t \<Rightarrow> Event \<Rightarrow> bool" where
  "in_range range_start range_end ev = (start_utc ev < range_end \<and> end_utc ev > range_start)"

text \<open>The identifiers returned by the successful creations of a run, in order.\<close>

fun success_ids :: "outcome list \<Rightarrow> int list" where
  "success_ids [] = []"
| "success_ids (Created r # rs) = (if r \<noteq> - 1 then r # success_ids rs else success_ids rs)"
| "success_ids (Deleted b # rs) = success_ids rs"
| "success_ids (Listed es # rs) = success_ids rs"

text \<open>What remains of an event, an operation and an outcome when titles are ignored.\<close>

definition untitled :: "Event \<Rightarrow> int \<times> time_t \<times> time_t" where
  "untitled ev = (event_id ev, start_utc ev, end_utc ev)"

fun same_but_title :: "operation \<Rightarrow> operation \<Rightarrow> bool" where
  "same_but_title (Create ttl s e) (Create ttl' s' e') = (s = s' \<and> e = e')"
| "same_but_title (Delete eid) (Delete eid') = (eid = eid')"
| "same_but_title (Weekly ws we) (Weekly ws' we') = (ws = ws' \<and> we = we')"
| "same_but_title Snapshot Snapshot = True"
| "same_but_title op op' = False"

fun same_outcome :: "outcome \<Rightarrow> outcome \<Rightarrow> bool" where
  "same_outcome (Created r) (Created r') = (r = r')"
| "same_outcome (Deleted b) (Deleted b') = (b = b')"
| "same_outcome (Listed es) (Listed es') = (map untitled es = map untitled es')"
| "same_outcome r r' = False"

definition agree :: "CalendarService \<Rightarrow> CalendarService \<Rightarrow> bool" where
  "agree st st' =
     (map untitled (events st) = map untitled (events st') \<and>
      next_event_id st = next_event_id st')"

section \<open>Example states and runs\<close>

definition two_events :: CalendarService where
  "two_events =
     \<lparr>events = [\<lparr>event_id = 1, title = ''standup'', start_utc = 10, end_utc = 11\<rparr>,
                \<lparr>event_id = 2, title = ''review'', start_utc = 11, end_utc = 12\<rparr>],
      next_event_id = 3\<rparr>"

definition week_store :: CalendarService where
  "week_store =
     \<lparr>events = [\<lparr>event_id = 4, title = ''last week'', start_utc = - 7200, end_utc = - 3600\<rparr>,
                \<lparr>event_id = 2, title = ''spanning'', start_utc = - 1800, end_utc = 1800\<rparr>,
                \<lparr>event_id = 1, title = ''monday'', start_utc = 32400, end_utc = 36000\<rparr>,
                \<lparr>event_id = 3, title = ''tuesday'', start_utc = 115200, end_utc = 118800\<rparr>,
                \<lparr>event_id = 5, title = ''next week'', start_utc = 604800, end_utc = 608400\<rparr>],
      next_event_id = 6\<rparr>"

definition sample_ops :: "operation list" where
  "sample_ops =
     [Create ''standup'' 10 11, Create ''review'' 11 12, Create ''clash'' 10 12,
      Create ''empty'' 5 5, Delete 1, Delete 9, Create ''early'' 9 11]"

definition retitled_ops :: "operation list" where
  "retitled_ops =
     [Create ''a'' 10 11, Create [] 11 12, Create ''zzz'' 10 12,
      Create ''empty'' 5 5, Delete 1, Delete 9, Create ''b'' 9 11]"

text \<open>
  A long run that keeps the store small: create the event \<open>[0, 1)\<close> and delete it
  again, \<open>n\<close> times over. The \<open>k\<close>-th round deletes the identifier the counter holds
  after \<open>k\<close> increments.
\<close>

fun churn :: "nat \<Rightarrow> operation list" where
  "churn 0 = []"
| "churn (Suc n) = churn n @ [Create [] 0 1, Delete (int_wrap (1 + int n))]"

fun churn_outcomes :: "nat \<Rightarrow> outcome list" where
  "churn_outcomes 0 = []"
| "churn_outcomes (Suc n) = churn_outcomes n @ [Created (int_wrap (1 + int n)), Deleted True]"

section \<open>The container and the loops\<close>

lemma lower_bound_le: "lower_bound xs k \<le> length xs"
  by (induction xs) auto

lemma lower_bound_before: "j < lower_bound xs k \<Longrightarrow> EventComparator (xs ! j) k"
proof (induction xs arbitrary: j)
  case Nil then show ?case by simp
next
  case (Cons x xs)
  then show ?case by (cases j) (auto split: if_splits)
qed

lemma lower_bound_at:
  "lower_bound xs k < length xs \<Longrightarrow> \<not> EventComparator (xs ! lower_bound xs k) k"
  by (induction xs) auto

lemma find_loop_spec:
  "it \<le> length xs \<Longrightarrow>
   find_loop xs it eid = it + length (takeWhile (\<lambda>ev. event_id ev \<noteq> eid) (drop it xs))"
proof (induction xs it eid rule: find_loop.induct)
  case (1 xs it eid)
  show ?case
  proof (cases "it < length xs")
    case True
    then have d: "drop it xs = xs ! it # drop (Suc it) xs"
      by (simp add: Cons_nth_drop_Suc)
    show ?thesis
    proof (cases "event_id (xs ! it) = eid")
      case True
      with \<open>it < length xs\<close> d show ?thesis by (simp add: find_loop.simps [of xs it])
    next
      case False
      with \<open>it < length xs\<close> d "1.IH" show ?thesis
        by (simp add: find_loop.simps [of xs it])
    qed
  next
    case False
    with "1.prems" have "it = length xs" by simp
    then show ?thesis by (simp add: find_loop.simps [of xs "length xs"])
  qed
qed

lemma weekly_loop_spec:
  "it \<le> length xs \<Longrightarrow>
   weekly_loop xs it we res = res @ takeWhile (\<lambda>ev. start_utc ev < we) (drop it xs)"
proof (induction xs it we res rule: weekly_loop.induct)
  case (1 xs it we res)
  show ?case
  proof (cases "it < length xs")
    case True
    then have d: "drop it xs = xs ! it # drop (Suc it) xs"
      by (simp add: Cons_nth_drop_Suc)
    show ?thesis
    proof (cases "start_utc (xs ! it) < we")
      case True
      with \<open>it < length xs\<close> d "1.IH" show ?thesis
        by (simp add: weekly_loop.simps [of xs it])
    next
      case False
      with \<open>it < length xs\<close> d show ?thesis by (simp add: weekly_loop.simps [of xs it])
    qed
  next
    case False
    with "1.prems" have "it = length xs" by simp
    then show ?thesis by (simp add: weekly_loop.simps [of xs "length xs"])
  qed
qed

lemma push_back_fold: "fold (\<lambda>event result. result @ [event]) xs acc = acc @ xs"
  by (induction xs arbitrary: acc) auto

lemma getAllEvents_eq: "getAllEvents st = (events st, st)"
  by (simp add: getAllEvents_def push_back_fold)

section \<open>Deletion and the snapshot\<close>

lemma findEventById_first: "findEventById st eid = first_with_id (events st) eid"
  using find_loop_spec [of 0 "events st" eid]
  by (simp add: findEventById_def first_with_id_def)

lemma first_with_id_le: "first_with_id xs eid \<le> length xs"
  by (simp add: first_with_id_def length_takeWhile_le)

lemma first_with_id_found:
  "\<exists>ev \<in> set xs. event_id ev = eid \<Longrightarrow>
   first_with_id xs eid < length xs \<and> event_id (xs ! first_with_id xs eid) = eid"
  unfolding first_with_id_def
  by (induction xs) auto

lemma first_with_id_before:
  "j < first_with_id xs eid \<Longrightarrow> event_id (xs ! j) \<noteq> eid"
  unfolding first_with_id_def
proof (induction xs arbitrary: j)
  case Nil then show ?case by simp
next
  case (Cons x xs)
  then show ?case by (cases j) (auto split: if_splits)
qed

lemma first_with_id_absent:
  "\<forall>ev \<in> set xs. event_id ev \<noteq> eid \<Longrightarrow> first_with_id xs eid = length xs"
  unfolding first_with_id_def by (induction xs) auto

lemma mset_set_erase:
  assumes k: "k < length xs"
  shows "mset (set_erase k xs) = mset xs - {#xs ! k#}"
proof -
  have "mset xs = mset (take k xs @ xs ! k # drop (Suc k) xs)"
    by (rule arg_cong [OF id_take_nth_drop [OF k]])
  also have "\<dots> = mset (take k xs @ drop (Suc k) xs) + {#xs ! k#}"
    by simp
  finally have "mset xs - {#xs ! k#} = mset (take k xs @ drop (Suc k) xs)"
    by simp
  then show ?thesis by (simp add: set_erase_def)
qed

text \<open>
  C6: when some stored event carries the identifier, \<^verbatim>\<open>deleteEvent\<close> returns true and the
  store afterwards is the store before without exactly one element, the first one in
  container order with that identifier; everything else, the counter included, is as it
  was. When no stored event carries the identifier it returns false and the state is
  unchanged.
\<close>

theorem deleteEvent_correct:
  "((\<exists>ev \<in> set (events st). event_id ev = eid) \<longrightarrow>
      (\<exists>k < length (events st).
         event_id (events st ! k) = eid \<and>
         (\<forall>j < k. event_id (events st ! j) \<noteq> eid) \<and>
         deleteEvent eid st =
           (True, st\<lparr>events := take k (events st) @ drop (Suc k) (events st)\<rparr>) \<and>
         mset (events (snd (deleteEvent eid st))) = mset (events st) - {#events st ! k#})) \<and>
   ((\<forall>ev \<in> set (events st). event_id ev \<noteq> eid) \<longrightarrow> deleteEvent eid st = (False, st))"
proof (intro conjI impI)
  assume ex: "\<exists>ev \<in> set (events st). event_id ev = eid"
  let ?k = "first_with_id (events st) eid"
  from first_with_id_found [OF ex]
  have k: "?k < length (events st)" and kid: "event_id (events st ! ?k) = eid" by simp_all
  have del: "deleteEvent eid st = (True, st\<lparr>events := set_erase ?k (events st)\<rparr>)"
    using k by (simp add: deleteEvent_def findEventById_first Let_def)
  have "\<forall>j < ?k. event_id (events st ! j) \<noteq> eid"
    using first_with_id_before by blast
  moreover have "deleteEvent eid st =
      (True, st\<lparr>events := take ?k (events st) @ drop (Suc ?k) (events st)\<rparr>)"
    using del by (simp add: set_erase_def)
  moreover have "mset (events (snd (deleteEvent eid st))) = mset (events st) - {#events st ! ?k#}"
    using del mset_set_erase [OF k] by simp
  ultimately show "\<exists>k < length (events st).
         event_id (events st ! k) = eid \<and>
         (\<forall>j < k. event_id (events st ! j) \<noteq> eid) \<and>
         deleteEvent eid st =
           (True, st\<lparr>events := take k (events st) @ drop (Suc k) (events st)\<rparr>) \<and>
         mset (events (snd (deleteEvent eid st))) = mset (events st) - {#events st ! k#}"
    using k kid by blast
next
  assume "\<forall>ev \<in> set (events st). event_id ev \<noteq> eid"
  then have "first_with_id (events st) eid = length (events st)"
    by (rule first_with_id_absent)
  then show "deleteEvent eid st = (False, st)"
    by (simp add: deleteEvent_def findEventById_first Let_def)
qed

theorem deleteEvent_correct_witness:
  "(\<exists>ev \<in> set (events two_events). event_id ev = 2) \<and>
   7 \<notin> event_id ` set (events two_events) \<and>
   deleteEvent 2 two_events =
     (True, two_events\<lparr>events := [\<lparr>event_id = 1, title = ''standup'', start_utc = 10, end_utc = 11\<rparr>]\<rparr>) \<and>
   deleteEvent 7 two_events = (False, two_events)"
proof -
  have h1: "\<exists>ev \<in> set (events two_events). event_id ev = 2"
    by (simp add: two_events_def)
  have h2: "\<forall>ev \<in> set (events two_events). event_id ev \<noteq> 7"
    by (simp add: two_events_def)
  from deleteEvent_correct [of two_events 2] h1
  obtain k where k: "k < length (events two_events)"
    and kid: "event_id (events two_events ! k) = 2"
    and del: "deleteEvent 2 two_events =
           (True, two_events\<lparr>events := take k (events two_events) @ drop (Suc k) (events two_events)\<rparr>)"
    by blast
  from k kid have "k = 1"
    by (cases k) (auto simp: two_events_def)
  with del have "deleteEvent 2 two_events =
     (True, two_events\<lparr>events := [\<lparr>event_id = 1, title = ''standup'', start_utc = 10, end_utc = 11\<rparr>]\<rparr>)"
    by (simp add: two_events_def)
  moreover from deleteEvent_correct [of two_events 7] h2
  have "deleteEvent 7 two_events = (False, two_events)" by blast
  moreover have "7 \<notin> event_id ` set (events two_events)"
    by (simp add: two_events_def)
  ultimately show ?thesis using h1 by blast
qed

lemma sorted_set_distinct: "sorted_wrt EventComparator xs \<Longrightarrow> distinct xs"
  by (induction xs) (auto simp: EventComparator_def)

text \<open>
  C8: \<^verbatim>\<open>getAllEvents\<close> returns the stored events, each exactly once, ascending by
  (start, identifier), and leaves the state as it was, so a second call returns the same
  sequence. The container's order is the only assumption on the state.
\<close>

theorem getAllEvents_correct:
  "sorted_wrt EventComparator (events st) \<Longrightarrow>
   fst (getAllEvents st) = events st \<and>
   mset (fst (getAllEvents st)) = mset (events st) \<and>
   distinct (fst (getAllEvents st)) \<and>
   sorted_wrt (\<lambda>a b. start_utc a < start_utc b \<or>
                      (start_utc a = start_utc b \<and> event_id a < event_id b))
     (fst (getAllEvents st)) \<and>
   snd (getAllEvents st) = st \<and>
   fst (getAllEvents (snd (getAllEvents st))) = fst (getAllEvents st)"
proof -
  assume s: "sorted_wrt EventComparator (events st)"
  have cmp: "EventComparator = (\<lambda>a b. start_utc a < start_utc b \<or>
                      (start_utc a = start_utc b \<and> event_id a < event_id b))"
    by (auto simp: EventComparator_def fun_eq_iff)
  have "distinct (events st)"
    using s by (rule sorted_set_distinct)
  then show ?thesis using s by (simp add: getAllEvents_eq cmp [symmetric])
qed

theorem getAllEvents_correct_witness:
  "sorted_wrt EventComparator (events two_events) \<and>
   fst (getAllEvents two_events) = events two_events \<and>
   snd (getAllEvents two_events) = two_events \<and>
   fst (getAllEvents (snd (getAllEvents two_events))) = fst (getAllEvents two_events)"
proof -
  have h: "sorted_wrt EventComparator (events two_events)"
    by (simp add: two_events_def EventComparator_def)
  from getAllEvents_correct [OF h] h show ?thesis by blast
qed

section \<open>The conflict detector\<close>

lemma store_inv_chained:
  "store_inv xs \<longleftrightarrow> valid_intervals xs \<and> chained xs"
proof
  assume inv: "store_inv xs"
  then have so: "sorted_wrt EventComparator xs" and va: "valid_intervals xs"
    and no: "non_overlapping xs" by (simp_all add: store_inv_def)
  have "end_utc (xs ! i) \<le> start_utc (xs ! j)" if "i < j" "j < length xs" for i j
  proof -
    from that so have "EventComparator (xs ! i) (xs ! j)"
      by (simp add: sorted_wrt_iff_nth_less)
    then have le: "start_utc (xs ! i) \<le> start_utc (xs ! j)"
      by (auto simp: EventComparator_def split: if_splits)
    from that va have "start_utc (xs ! j) < end_utc (xs ! j)"
      by (simp add: valid_intervals_def)
    with le have "start_utc (xs ! i) < end_utc (xs ! j)" by simp
    moreover from that no have "\<not> overlap (xs ! i) (xs ! j)"
      by (simp add: non_overlapping_def)
    ultimately show ?thesis by (simp add: overlap_def)
  qed
  then have "chained xs" by (simp add: chained_def sorted_wrt_iff_nth_less)
  with va show "valid_intervals xs \<and> chained xs" by simp
next
  assume a: "valid_intervals xs \<and> chained xs"
  then have va: "valid_intervals xs"
    and ch: "\<And>i j. i < j \<Longrightarrow> j < length xs \<Longrightarrow> end_utc (xs ! i) \<le> start_utc (xs ! j)"
    by (simp_all add: chained_def sorted_wrt_iff_nth_less)
  have lt: "start_utc (xs ! i) < start_utc (xs ! j)" if "i < j" "j < length xs" for i j
  proof -
    from that va have "start_utc (xs ! i) < end_utc (xs ! i)"
      by (simp add: valid_intervals_def)
    with ch [OF that] show ?thesis by simp
  qed
  have "EventComparator (xs ! i) (xs ! j)" if "i < j" "j < length xs" for i j
    using lt [OF that] by (simp add: EventComparator_def)
  then have "sorted_wrt EventComparator xs"
    by (simp add: sorted_wrt_iff_nth_less)
  moreover have "\<not> overlap (xs ! i) (xs ! j)" if "i < length xs" "j < length xs" "i \<noteq> j" for i j
  proof (cases "i < j")
    case True
    with ch that show ?thesis by (fastforce simp: overlap_def)
  next
    case False
    with that have "j < i" by simp
    with ch that show ?thesis by (fastforce simp: overlap_def)
  qed
  then have "non_overlapping xs" by (simp add: non_overlapping_def)
  ultimately show "store_inv xs" using va by (simp add: store_inv_def)
qed

lemma neighbours_suffice:
  assumes va: "valid_intervals xs" and ch: "chained xs"
    and p: "p \<le> length xs"
    and before: "\<And>j. j < p \<Longrightarrow> start_utc (xs ! j) \<le> s"
    and at: "p < length xs \<Longrightarrow> s \<le> start_utc (xs ! p)"
  shows "((p \<noteq> length xs \<and> conflicts_with s e (xs ! p)) \<or>
          (p \<noteq> 0 \<and> conflicts_with s e (xs ! (p - 1)))) =
         (\<exists>ev \<in> set xs. conflicts_with s e ev)"
proof
  assume "(p \<noteq> length xs \<and> conflicts_with s e (xs ! p)) \<or>
          (p \<noteq> 0 \<and> conflicts_with s e (xs ! (p - 1)))"
  then show "\<exists>ev \<in> set xs. conflicts_with s e ev"
  proof
    assume "p \<noteq> length xs \<and> conflicts_with s e (xs ! p)"
    with p have "xs ! p \<in> set xs" "conflicts_with s e (xs ! p)" by simp_all
    then show ?thesis by blast
  next
    assume q: "p \<noteq> 0 \<and> conflicts_with s e (xs ! (p - 1))"
    with p have "p - 1 < length xs" by linarith
    then have "xs ! (p - 1) \<in> set xs" by (rule nth_mem)
    with q show ?thesis by blast
  qed
next
  assume "\<exists>ev \<in> set xs. conflicts_with s e ev"
  then obtain j where j: "j < length xs" and c: "conflicts_with s e (xs ! j)"
    by (auto simp: in_set_conv_nth)
  from ch have chn: "\<And>i k. i < k \<Longrightarrow> k < length xs \<Longrightarrow> end_utc (xs ! i) \<le> start_utc (xs ! k)"
    by (simp add: chained_def sorted_wrt_iff_nth_less)
  consider "Suc j < p" | "Suc j = p" | "j = p" | "p < j" by linarith
  then show "(p \<noteq> length xs \<and> conflicts_with s e (xs ! p)) \<or>
          (p \<noteq> 0 \<and> conflicts_with s e (xs ! (p - 1)))"
  proof cases
    case 1
    then have "j < p - 1" "p - 1 < length xs" "p - 1 < p" using p by simp_all
    then have "end_utc (xs ! j) \<le> start_utc (xs ! (p - 1))" "start_utc (xs ! (p - 1)) \<le> s"
      using chn before by simp_all
    with c show ?thesis by (simp add: conflicts_with_def)
  next
    case 2
    then have "p \<noteq> 0" "xs ! (p - 1) = xs ! j" by auto
    with c show ?thesis by simp
  next
    case 3
    with j c show ?thesis by simp
  next
    case 4
    with j have pl: "p < length xs" by simp
    from chn [OF 4 j] have "end_utc (xs ! p) \<le> start_utc (xs ! j)" .
    moreover from va pl have "start_utc (xs ! p) < end_utc (xs ! p)"
      by (simp add: valid_intervals_def)
    moreover note at [OF pl] c
    ultimately have "conflicts_with s e (xs ! p)" by (simp add: conflicts_with_def)
    with pl show ?thesis by simp
  qed
qed

lemma comparator_start_le: "EventComparator a b \<Longrightarrow> start_utc a \<le> start_utc b"
  by (auto simp: EventComparator_def split: if_splits)

lemma not_comparator_start_ge: "\<not> EventComparator a b \<Longrightarrow> start_utc b \<le> start_utc a"
  by (auto simp: EventComparator_def split: if_splits)

lemma hasConflict_neighbours:
  "hasConflict st s e =
     (let p = lower_bound (events st) \<lparr>event_id = 0, title = [], start_utc = s, end_utc = e\<rparr>
      in (p \<noteq> length (events st) \<and> conflicts_with s e (events st ! p)) \<or>
         (p \<noteq> 0 \<and> conflicts_with s e (events st ! (p - 1))))"
  by (auto simp: hasConflict_def Let_def conflicts_with_def)

lemma hasConflict_iff:
  assumes inv: "store_inv (events st)"
  shows "hasConflict st s e = (\<exists>ev \<in> set (events st). conflicts_with s e ev)"
proof -
  let ?k = "\<lparr>event_id = 0, title = [], start_utc = s, end_utc = e\<rparr>"
  let ?p = "lower_bound (events st) ?k"
  from inv have va: "valid_intervals (events st)" and ch: "chained (events st)"
    by (simp_all add: store_inv_chained)
  have b: "start_utc (events st ! j) \<le> s" if "j < ?p" for j
    using comparator_start_le [OF lower_bound_before [OF that]] by simp
  have a: "s \<le> start_utc (events st ! ?p)" if "?p < length (events st)"
    using not_comparator_start_ge [OF lower_bound_at [OF that]] by simp
  from neighbours_suffice [of "events st" ?p s e, OF va ch lower_bound_le b a]
  show ?thesis by (simp add: hasConflict_neighbours Let_def)
qed

lemma examine_neighbours_iff:
  assumes inv: "store_inv xs"
  shows "examine_neighbours xs s e = (\<exists>ev \<in> set xs. conflicts_with s e ev)"
proof -
  let ?P = "\<lambda>ev. start_utc ev < s"
  let ?p = "length (takeWhile ?P xs)"
  from inv have va: "valid_intervals xs" and ch: "chained xs"
    by (simp_all add: store_inv_chained)
  have b: "start_utc (xs ! j) \<le> s" if "j < ?p" for j
  proof -
    from that have "takeWhile ?P xs ! j \<in> set (takeWhile ?P xs)" by simp
    then have "?P (takeWhile ?P xs ! j)" by (rule set_takeWhileD [THEN conjunct2])
    with that show ?thesis by (simp add: takeWhile_nth)
  qed
  have a: "s \<le> start_utc (xs ! ?p)" if "?p < length xs"
    using nth_length_takeWhile [OF that] by simp
  have le: "?p \<le> length xs" by (rule length_takeWhile_le)
  then have "(?p < length xs) = (?p \<noteq> length xs)" and "(0 < ?p) = (?p \<noteq> 0)"
    by auto
  with neighbours_suffice [of xs ?p s e, OF va ch le b a]
  show ?thesis by (simp add: examine_neighbours_def Let_def)
qed

text \<open>
  C1: on a store that satisfies the invariants, and for a candidate \<open>[s, e)\<close> with
  \<open>s < e\<close>, \<^verbatim>\<open>hasConflict\<close> is true exactly when some stored event overlaps the
  candidate (\<open>s < E.end\<close> and \<open>e > E.start\<close>); it computes what examining only the first
  stored event with start \<open>\<ge> s\<close> and its predecessor computes; and a candidate that
  at most touches stored events at a boundary is not a conflict.
\<close>

theorem hasConflict_correct:
  assumes "store_inv (events st)" and "s < e"
  shows "hasConflict st s e = (\<exists>ev \<in> set (events st). s < end_utc ev \<and> e > start_utc ev) \<and>
         hasConflict st s e = examine_neighbours (events st) s e \<and>
         ((\<forall>ev \<in> set (events st). end_utc ev \<le> s \<or> e \<le> start_utc ev) \<longrightarrow>
            \<not> hasConflict st s e)"
  using hasConflict_iff [OF assms(1), of s e] examine_neighbours_iff [OF assms(1), of s e]
  by (auto simp: conflicts_with_def)

theorem hasConflict_correct_witness:
  "store_inv (events two_events) \<and> (12::int) < 13 \<and>
   \<not> hasConflict two_events 12 13 \<and> \<not> examine_neighbours (events two_events) 12 13"
proof -
  have h: "store_inv (events two_events)"
    by (simp add: store_inv_chained valid_intervals_def chained_def two_events_def)
  have t: "\<forall>ev \<in> set (events two_events). end_utc ev \<le> 12 \<or> (13::int) \<le> start_utc ev"
    by (simp add: two_events_def)
  have l: "(12::int) < 13" by simp
  from hasConflict_correct [OF h l] t
  have "\<not> hasConflict two_events 12 13"
    and "hasConflict two_events 12 13 = examine_neighbours (events two_events) 12 13"
    by blast+
  with h l show ?thesis by simp
qed


section \<open>Every operation preserves the invariants\<close>

lemma set_set_insert: "set (set_insert v xs) \<subseteq> insert v (set xs)"
  by (induction xs) auto

lemma chained_Cons:
  "chained (x # xs) = ((\<forall>y \<in> set xs. end_utc x \<le> start_utc y) \<and> chained xs)"
  by (simp add: chained_def)

lemma valid_intervals_Cons:
  "valid_intervals (x # xs) = (start_utc x < end_utc x \<and> valid_intervals xs)"
  by (simp add: valid_intervals_def)

lemma insert_keeps_chain:
  assumes "valid_intervals xs" and "chained xs" and "start_utc v < end_utc v"
    and "\<forall>ev \<in> set xs. \<not> conflicts_with (start_utc v) (end_utc v) ev"
  shows "chained (set_insert v xs)"
  using assms
proof (induction xs)
  case Nil
  then show ?case by (simp add: chained_def)
next
  case (Cons x xs)
  from Cons.prems have vx: "start_utc x < end_utc x" and vxs: "valid_intervals xs"
    and cx: "\<forall>y \<in> set xs. end_utc x \<le> start_utc y" and cxs: "chained xs"
    and nx: "\<not> conflicts_with (start_utc v) (end_utc v) x"
    and nxs: "\<forall>ev \<in> set xs. \<not> conflicts_with (start_utc v) (end_utc v) ev"
    by (simp_all add: chained_Cons valid_intervals_Cons)
  show ?case
  proof (cases "EventComparator v x")
    case True
    then have le: "start_utc v \<le> start_utc x" by (rule comparator_start_le)
    with vx nx have vbx: "end_utc v \<le> start_utc x"
      by (simp add: conflicts_with_def)
    have "end_utc v \<le> start_utc y" if "y \<in> set xs" for y
      using that cx vx vbx by fastforce
    with True vbx Cons.prems show ?thesis by (simp add: chained_Cons)
  next
    case False
    show ?thesis
    proof (cases "EventComparator x v")
      case True
      then have "start_utc x \<le> start_utc v" by (rule comparator_start_le)
      with Cons.prems(3) nx have xbv: "end_utc x \<le> start_utc v"
        by (simp add: conflicts_with_def)
      have "end_utc x \<le> start_utc y" if "y \<in> set (set_insert v xs)" for y
        using that set_set_insert [of v xs] cx xbv by auto
      moreover have "chained (set_insert v xs)"
        using Cons.IH vxs cxs Cons.prems(3) nxs by simp
      ultimately show ?thesis using False True by (simp add: chained_Cons)
    next
      case nc: False
      with False Cons.prems show ?thesis by simp
    qed
  qed
qed

lemma insert_keeps_valid:
  "valid_intervals xs \<Longrightarrow> start_utc v < end_utc v \<Longrightarrow> valid_intervals (set_insert v xs)"
  using set_set_insert [of v xs] by (auto simp: valid_intervals_def)

lemma erase_keeps_chain: "chained xs \<Longrightarrow> chained (set_erase k xs)"
  unfolding chained_def set_erase_def
  by (induction xs arbitrary: k)
     (auto simp: take_Cons' drop_Cons' sorted_wrt_append dest: in_set_takeD in_set_dropD)

lemma erase_keeps_valid: "valid_intervals xs \<Longrightarrow> valid_intervals (set_erase k xs)"
  by (auto simp: valid_intervals_def set_erase_def dest: in_set_takeD in_set_dropD)

lemma createEvent_cases:
  "createEvent ttl s e st =
     (if e \<le> s \<or> hasConflict st s e then (- 1, st)
      else (next_event_id st,
            \<lparr>events = set_insert \<lparr>event_id = next_event_id st, title = ttl,
                                  start_utc = s, end_utc = e\<rparr> (events st),
             next_event_id = int_wrap (next_event_id st + 1)\<rparr>))"
  by (simp add: createEvent_def getNextEventId_def Let_def)

lemma createEvent_inv:
  assumes "store_inv (events st)"
  shows "store_inv (events (snd (createEvent ttl s e st)))"
proof (cases "e \<le> s \<or> hasConflict st s e")
  case True
  with assms show ?thesis by (simp add: createEvent_cases)
next
  case False
  let ?v = "\<lparr>event_id = next_event_id st, title = ttl, start_utc = s, end_utc = e\<rparr>"
  from assms have va: "valid_intervals (events st)" and ch: "chained (events st)"
    by (simp_all add: store_inv_chained)
  from False have se: "start_utc ?v < end_utc ?v" by simp
  from False hasConflict_iff [OF assms, of s e]
  have nc: "\<forall>ev \<in> set (events st). \<not> conflicts_with (start_utc ?v) (end_utc ?v) ev"
    by simp
  have "chained (set_insert ?v (events st))"
    by (rule insert_keeps_chain [OF va ch se nc])
  moreover have "valid_intervals (set_insert ?v (events st))"
    by (rule insert_keeps_valid [OF va se])
  ultimately show ?thesis using False by (simp add: createEvent_cases store_inv_chained)
qed

lemma deleteEvent_inv:
  assumes "store_inv (events st)"
  shows "store_inv (events (snd (deleteEvent eid st)))"
  using assms
  by (simp add: deleteEvent_def Let_def store_inv_chained erase_keeps_chain erase_keeps_valid)

lemma getWeeklyEvents_state: "snd (getWeeklyEvents ws we st) = st"
  by (simp add: getWeeklyEvents_def Let_def)

lemma exec_inv:
  "store_inv (events st) \<Longrightarrow> store_inv (events (snd (exec op st)))"
  by (cases op)
     (simp_all add: split_beta createEvent_inv deleteEvent_inv getWeeklyEvents_state
        getAllEvents_eq)

lemma run_inv:
  "store_inv (events st) \<Longrightarrow> store_inv (events (snd (run ops st)))"
proof (induction ops arbitrary: st)
  case Nil
  then show ?case by simp
next
  case (Cons op ops)
  from Cons.IH [OF exec_inv [OF Cons.prems, of op]]
  show ?case by (simp add: split_beta)
qed

lemma init_inv: "store_inv (events CalendarService_init)"
  by (simp add: CalendarService_init_def store_inv_def valid_intervals_def non_overlapping_def)

lemma reachable_store_inv: "store_inv (events (snd (run ops CalendarService_init)))"
  by (rule run_inv [OF init_inv])

text \<open>
  C2: in the state reached from the initial service by any sequence of operations, no
  two stored events at different positions overlap
  (\<open>\<not> (A.start < B.end \<and> B.start < A.end)\<close>) and every stored event has
  \<open>start < end\<close>; and every single operation takes a well-formed store to a
  well-formed store.
\<close>

theorem reachable_invariants:
  "non_overlapping (events (snd (run ops CalendarService_init))) \<and>
   valid_intervals (events (snd (run ops CalendarService_init))) \<and>
   (store_inv (events st) \<longrightarrow> store_inv (events (snd (exec op st))))"
  using reachable_store_inv [of ops] exec_inv [of st op] by (simp add: store_inv_def)

lemmas eval_defs =
  createEvent_cases hasConflict_def deleteEvent_def findEventById_first first_with_id_def
  set_erase_def EventComparator_def Let_def int_wrap_def CalendarService_init_def
  getAllEvents_eq

theorem reachable_invariants_witness:
  "non_overlapping (events (snd (run sample_ops CalendarService_init))) \<and>
   valid_intervals (events (snd (run sample_ops CalendarService_init))) \<and>
   snd (run sample_ops CalendarService_init) =
     \<lparr>events = [\<lparr>event_id = 3, title = ''early'', start_utc = 9, end_utc = 11\<rparr>,
                \<lparr>event_id = 2, title = ''review'', start_utc = 11, end_utc = 12\<rparr>],
      next_event_id = 4\<rparr> \<and>
   store_inv (events two_events) \<and>
   store_inv (events (snd (exec (Create ''late'' 12 13) two_events)))"
proof -
  have r: "snd (run sample_ops CalendarService_init) =
     \<lparr>events = [\<lparr>event_id = 3, title = ''early'', start_utc = 9, end_utc = 11\<rparr>,
                \<lparr>event_id = 2, title = ''review'', start_utc = 11, end_utc = 12\<rparr>],
      next_event_id = 4\<rparr>"
    by (simp add: sample_ops_def eval_defs)
  have h: "store_inv (events two_events)"
    by (simp add: store_inv_chained valid_intervals_def chained_def two_events_def)
  from reachable_invariants [of sample_ops two_events "Create ''late'' 12 13"] h
  have "non_overlapping (events (snd (run sample_ops CalendarService_init)))"
    and "valid_intervals (events (snd (run sample_ops CalendarService_init)))"
    and "store_inv (events (snd (exec (Create ''late'' 12 13) two_events)))"
    by blast+
  with r h show ?thesis by simp
qed

section \<open>The range query\<close>

lemma filter_takeWhile_start:
  "sorted_wrt (\<lambda>a b. start_utc a \<le> start_utc b) ys \<Longrightarrow>
   filter (\<lambda>ev. start_utc ev < we) ys = takeWhile (\<lambda>ev. start_utc ev < we) ys"
proof (induction ys)
  case Nil
  then show ?case by simp
next
  case (Cons y ys)
  show ?case
  proof (cases "start_utc y < we")
    case True
    with Cons show ?thesis by simp
  next
    case False
    with Cons.prems have "\<forall>z \<in> set ys. \<not> start_utc z < we" by auto
    then have "filter (\<lambda>ev. start_utc ev < we) ys = []" by (simp add: filter_empty_conv)
    with False show ?thesis by simp
  qed
qed

lemma chained_valid_starts:
  "chained ys \<Longrightarrow> valid_intervals ys \<Longrightarrow> sorted_wrt (\<lambda>a b. start_utc a < start_utc b) ys"
  unfolding chained_def valid_intervals_def
  by (induction ys) fastforce+

lemma weekly_tail:
  assumes k: "start_utc k = ws" and ch: "chained xs" and va: "valid_intervals xs"
  shows "filter (in_range ws we) (drop (lower_bound xs k) xs) =
         takeWhile (\<lambda>ev. start_utc ev < we) (drop (lower_bound xs k) xs)"
proof -
  let ?p = "lower_bound xs k"
  let ?ys = "drop ?p xs"
  from ch have chy: "chained ?ys" by (simp add: chained_def sorted_wrt_drop)
  from va have vay: "valid_intervals ?ys"
    by (auto simp: valid_intervals_def dest: in_set_dropD)
  have ge: "ws \<le> start_utc ev" if "ev \<in> set ?ys" for ev
  proof (cases "?p < length xs")
    case False
    with that show ?thesis by simp
  next
    case True
    then have d: "?ys = xs ! ?p # drop (Suc ?p) xs" by (simp add: Cons_nth_drop_Suc)
    from not_comparator_start_ge [OF lower_bound_at [OF True]] k
    have h: "ws \<le> start_utc (xs ! ?p)" by simp
    from chy vay d have "\<forall>z \<in> set (drop (Suc ?p) xs). start_utc (xs ! ?p) \<le> start_utc z"
      by (fastforce simp: chained_Cons valid_intervals_Cons)
    with h that d show ?thesis by auto
  qed
  have "in_range ws we ev = (start_utc ev < we)" if "ev \<in> set ?ys" for ev
    using ge [OF that] vay that by (fastforce simp: in_range_def valid_intervals_def)
  then have "filter (in_range ws we) ?ys = filter (\<lambda>ev. start_utc ev < we) ?ys"
    by (simp cong: filter_cong)
  moreover have "sorted_wrt (\<lambda>a b. start_utc a \<le> start_utc b) ?ys"
    using chained_valid_starts [OF chy vay]
    by (rule sorted_wrt_mono_rel [rotated]) simp
  ultimately show ?thesis by (simp add: filter_takeWhile_start)
qed

lemma weekly_head:
  assumes ch: "chained xs" and va: "valid_intervals xs"
    and k: "start_utc k = ws" "event_id k = 0"
    and bounds: "ws < we \<or> (ws = we \<and> (\<forall>ev \<in> set xs. 0 \<le> event_id ev))"
  shows "filter (in_range ws we) (take (lower_bound xs k) xs) =
         (if lower_bound xs k \<noteq> 0 \<and> end_utc (xs ! (lower_bound xs k - 1)) > ws
          then [xs ! (lower_bound xs k - 1)] else [])"
proof (cases "lower_bound xs k")
  case 0
  then show ?thesis by simp
next
  case (Suc q)
  let ?z = "xs ! q"
  have q: "q < length xs" using lower_bound_le [of xs k] Suc by simp
  then have t: "take (Suc q) xs = take q xs @ [?z]" by (rule take_Suc_conv_app_nth)
  from ch have chn: "\<And>i j. i < j \<Longrightarrow> j < length xs \<Longrightarrow> end_utc (xs ! i) \<le> start_utc (xs ! j)"
    by (simp add: chained_def sorted_wrt_iff_nth_less)
  have cz: "EventComparator ?z k" using lower_bound_before [of q xs k] Suc by simp
  then have zle: "start_utc ?z \<le> ws" using k comparator_start_le by fastforce
  have "\<not> in_range ws we ev" if "ev \<in> set (take q xs)" for ev
  proof -
    from that obtain j where "j < q" "ev = xs ! j"
      by (auto simp: in_set_conv_nth)
    with chn [of j q] q zle show ?thesis by (simp add: in_range_def)
  qed
  then have e: "filter (in_range ws we) (take q xs) = []" by (simp add: filter_empty_conv)
  from q have zmem: "?z \<in> set xs" by simp
  have "start_utc ?z < we"
  proof (cases "ws < we")
    case True
    with zle show ?thesis by simp
  next
    case False
    with bounds zmem have "ws = we" "0 \<le> event_id ?z" by auto
    with cz k zle show ?thesis by (auto simp: EventComparator_def split: if_splits)
  qed
  then have "in_range ws we ?z = (end_utc ?z > ws)" by (simp add: in_range_def)
  with e t Suc show ?thesis by simp
qed

lemma getWeeklyEvents_filter:
  assumes inv: "store_inv (events st)"
    and bounds: "ws < we \<or> (ws = we \<and> (\<forall>ev \<in> set (events st). 0 \<le> event_id ev))"
  shows "fst (getWeeklyEvents ws we st) = filter (in_range ws we) (events st)"
proof -
  let ?k = "\<lparr>event_id = 0, title = [], start_utc = ws, end_utc = ws\<rparr>"
  let ?p = "lower_bound (events st) ?k"
  from inv have va: "valid_intervals (events st)" and ch: "chained (events st)"
    by (simp_all add: store_inv_chained)
  have "filter (in_range ws we) (events st) =
        filter (in_range ws we) (take ?p (events st)) @
        filter (in_range ws we) (drop ?p (events st))"
    by (simp flip: filter_append)
  also have "\<dots> =
      (if ?p \<noteq> 0 \<and> end_utc (events st ! (?p - 1)) > ws then [events st ! (?p - 1)] else []) @
      takeWhile (\<lambda>ev. start_utc ev < we) (drop ?p (events st))"
    using weekly_head [OF ch va _ _ bounds, of ?k] weekly_tail [OF _ ch va, of ?k ws we]
    by simp
  also have "\<dots> = fst (getWeeklyEvents ws we st)"
    by (simp add: getWeeklyEvents_def Let_def weekly_loop_spec [OF lower_bound_le])
  finally show ?thesis by simp
qed

text \<open>
  C4 (amended): on a store that satisfies the invariants, and for bounds with
  \<open>rangeStart < rangeEnd\<close> (or \<open>rangeStart = rangeEnd\<close> when no stored identifier is
  negative), \<^verbatim>\<open>getWeeklyEvents\<close> returns, ascending by start, exactly the stored events
  with \<open>E.start < rangeEnd\<close> and \<open>E.end > rangeStart\<close>, among them any event that starts
  before \<open>rangeStart\<close> and ends after it; the state is left as it was.
\<close>

theorem getWeeklyEvents_correct:
  assumes "store_inv (events st)"
    and "ws < we \<or> (ws = we \<and> (\<forall>ev \<in> set (events st). 0 \<le> event_id ev))"
  shows "fst (getWeeklyEvents ws we st) =
           filter (\<lambda>ev. start_utc ev < we \<and> end_utc ev > ws) (events st) \<and>
         sorted_wrt (\<lambda>a b. start_utc a < start_utc b) (fst (getWeeklyEvents ws we st)) \<and>
         (\<forall>ev \<in> set (events st). start_utc ev < ws \<and> ws < end_utc ev \<longrightarrow>
            ev \<in> set (fst (getWeeklyEvents ws we st))) \<and>
         snd (getWeeklyEvents ws we st) = st"
proof -
  have f: "fst (getWeeklyEvents ws we st) =
           filter (\<lambda>ev. start_utc ev < we \<and> end_utc ev > ws) (events st)"
    using getWeeklyEvents_filter [OF assms] by (simp add: in_range_def [abs_def])
  from assms(1) have "sorted_wrt (\<lambda>a b. start_utc a < start_utc b) (events st)"
    by (simp add: store_inv_chained chained_valid_starts)
  then have "sorted_wrt (\<lambda>a b. start_utc a < start_utc b) (fst (getWeeklyEvents ws we st))"
    unfolding f by (rule sorted_wrt_filter)
  moreover have "ev \<in> set (fst (getWeeklyEvents ws we st))"
    if "ev \<in> set (events st)" "start_utc ev < ws \<and> ws < end_utc ev" for ev
    using that assms(2) unfolding f by auto
  ultimately show ?thesis using f by (simp add: getWeeklyEvents_state)
qed

lemma getWeeklyEvents_eval:
  "getWeeklyEvents ws we st =
     (let p = lower_bound (events st)
                \<lparr>event_id = 0, title = [], start_utc = ws, end_utc = ws\<rparr>
      in ((if p \<noteq> 0 \<and> end_utc (events st ! (p - 1)) > ws then [events st ! (p - 1)] else []) @
          takeWhile (\<lambda>ev. start_utc ev < we) (drop p (events st)), st))"
  by (simp add: getWeeklyEvents_def Let_def weekly_loop_spec [OF lower_bound_le])

theorem getWeeklyEvents_correct_witness:
  "store_inv (events week_store) \<and> (0::int) < 604800 \<and>
   fst (getWeeklyEvents 0 604800 week_store) =
     [\<lparr>event_id = 2, title = ''spanning'', start_utc = - 1800, end_utc = 1800\<rparr>,
      \<lparr>event_id = 1, title = ''monday'', start_utc = 32400, end_utc = 36000\<rparr>,
      \<lparr>event_id = 3, title = ''tuesday'', start_utc = 115200, end_utc = 118800\<rparr>]"
proof -
  have h: "store_inv (events week_store)"
    by (simp add: store_inv_chained valid_intervals_def chained_def week_store_def)
  have b: "(0::int) < 604800 \<or>
      ((0::int) = 604800 \<and> (\<forall>ev \<in> set (events week_store). 0 \<le> event_id ev))"
    by simp
  from getWeeklyEvents_correct [OF h b]
  have "fst (getWeeklyEvents 0 604800 week_store) =
          filter (\<lambda>ev. start_utc ev < 604800 \<and> end_utc ev > 0) (events week_store)"
    by blast
  also have "\<dots> =
     [\<lparr>event_id = 2, title = ''spanning'', start_utc = - 1800, end_utc = 1800\<rparr>,
      \<lparr>event_id = 1, title = ''monday'', start_utc = 32400, end_utc = 36000\<rparr>,
      \<lparr>event_id = 3, title = ''tuesday'', start_utc = 115200, end_utc = 118800\<rparr>]"
    by (simp add: week_store_def)
  finally show ?thesis using h by simp
qed

text \<open>
  With the bounds the wrong way round the predecessor of the search position is still
  returned, although it does not start before the end of the range: after one event
  \<open>[0, 10)\<close> has been created, the query \<open>(5, 0)\<close> returns it.
\<close>

theorem getWeeklyEvents_inverted_range_counterexample:
  "store_inv (events (snd (run [Create ''standup'' 0 10] CalendarService_init))) \<and>
   fst (getWeeklyEvents 5 0 (snd (run [Create ''standup'' 0 10] CalendarService_init))) =
     [\<lparr>event_id = 1, title = ''standup'', start_utc = 0, end_utc = 10\<rparr>] \<and>
   filter (in_range 5 0) (events (snd (run [Create ''standup'' 0 10] CalendarService_init))) = []"
proof -
  have st: "snd (run [Create ''standup'' 0 10] CalendarService_init) =
      \<lparr>events = [\<lparr>event_id = 1, title = ''standup'', start_utc = 0, end_utc = 10\<rparr>],
       next_event_id = 2\<rparr>"
    by (simp add: eval_defs)
  show ?thesis
    unfolding st
    by (simp add: store_inv_chained valid_intervals_def chained_def getWeeklyEvents_eval
          EventComparator_def in_range_def)
qed


section \<open>Creation\<close>

lemma mset_set_insert:
  "\<forall>x \<in> set xs. EventComparator v x \<or> EventComparator x v \<Longrightarrow>
   mset (set_insert v xs) = add_mset v (mset xs)"
  by (induction xs) auto

lemma no_conflict_comparable:
  assumes "valid_intervals xs" and "start_utc v < end_utc v"
    and "\<forall>ev \<in> set xs. \<not> conflicts_with (start_utc v) (end_utc v) ev"
  shows "\<forall>x \<in> set xs. EventComparator v x \<or> EventComparator x v"
proof
  fix x assume x: "x \<in> set xs"
  with assms have "start_utc x < end_utc x" "\<not> conflicts_with (start_utc v) (end_utc v) x"
    by (simp_all add: valid_intervals_def)
  with assms(2) have "start_utc x \<noteq> start_utc v"
    by (auto simp: conflicts_with_def)
  then show "EventComparator v x \<or> EventComparator x v"
    by (auto simp: EventComparator_def)
qed

text \<open>
  C5 (amended): in a state that satisfies the store invariants and whose identifier
  counter is not \<open>-1\<close>, \<^verbatim>\<open>createEvent\<close> returns the failure value \<open>-1\<close> exactly when
  \<open>start \<ge> end\<close> or some stored event overlaps the candidate; a failure leaves the
  state as it was; a success returns the counter's value, stores exactly one more event,
  the new one carrying that identifier, and keeps the invariants.
\<close>

theorem createEvent_correct:
  assumes "store_inv (events st)" and "next_event_id st \<noteq> - 1"
  shows "(fst (createEvent ttl s e st) = - 1 \<longleftrightarrow>
            s \<ge> e \<or> (\<exists>ev \<in> set (events st). s < end_utc ev \<and> e > start_utc ev)) \<and>
         (fst (createEvent ttl s e st) = - 1 \<longrightarrow> snd (createEvent ttl s e st) = st) \<and>
         (fst (createEvent ttl s e st) \<noteq> - 1 \<longrightarrow>
            fst (createEvent ttl s e st) = next_event_id st \<and>
            mset (events (snd (createEvent ttl s e st))) =
              add_mset \<lparr>event_id = fst (createEvent ttl s e st), title = ttl,
                         start_utc = s, end_utc = e\<rparr> (mset (events st)) \<and>
            store_inv (events (snd (createEvent ttl s e st))))"
proof (cases "e \<le> s \<or> hasConflict st s e")
  case True
  with hasConflict_iff [OF assms(1), of s e] show ?thesis
    by (auto simp: createEvent_cases conflicts_with_def)
next
  case False
  let ?v = "\<lparr>event_id = next_event_id st, title = ttl, start_utc = s, end_utc = e\<rparr>"
  from assms(1) have va: "valid_intervals (events st)" by (simp add: store_inv_chained)
  from False have se: "start_utc ?v < end_utc ?v" by simp
  from False hasConflict_iff [OF assms(1), of s e]
  have nc: "\<forall>ev \<in> set (events st). \<not> conflicts_with (start_utc ?v) (end_utc ?v) ev"
    by simp
  have m: "mset (set_insert ?v (events st)) = add_mset ?v (mset (events st))"
    by (rule mset_set_insert [OF no_conflict_comparable [OF va se nc]])
  have c: "createEvent ttl s e st =
      (next_event_id st,
       \<lparr>events = set_insert ?v (events st), next_event_id = int_wrap (next_event_id st + 1)\<rparr>)"
    using False by (simp add: createEvent_cases)
  have i: "store_inv (events (snd (createEvent ttl s e st)))"
    by (rule createEvent_inv [OF assms(1)])
  from nc have "\<not> (\<exists>ev \<in> set (events st). s < end_utc ev \<and> e > start_utc ev)"
    by (simp add: conflicts_with_def)
  with False assms(2) m i show ?thesis unfolding c by simp
qed

theorem createEvent_correct_witness:
  "store_inv (events two_events) \<and> next_event_id two_events \<noteq> - 1 \<and>
   createEvent ''late'' 12 13 two_events =
     (3, \<lparr>events = events two_events @
                     [\<lparr>event_id = 3, title = ''late'', start_utc = 12, end_utc = 13\<rparr>],
          next_event_id = 4\<rparr>) \<and>
   createEvent ''clash'' 10 12 two_events = (- 1, two_events) \<and>
   fst (createEvent ''late'' 12 13 two_events) = next_event_id two_events \<and>
   snd (createEvent ''clash'' 10 12 two_events) = two_events"
proof -
  have h: "store_inv (events two_events)"
    by (simp add: store_inv_chained valid_intervals_def chained_def two_events_def)
  have n: "next_event_id two_events \<noteq> - 1" by (simp add: two_events_def)
  have a: "createEvent ''late'' 12 13 two_events =
     (3, \<lparr>events = events two_events @
                     [\<lparr>event_id = 3, title = ''late'', start_utc = 12, end_utc = 13\<rparr>],
          next_event_id = 4\<rparr>)"
    by (simp add: two_events_def eval_defs)
  have b: "createEvent ''clash'' 10 12 two_events = (- 1, two_events)"
    by (simp add: two_events_def eval_defs)
  from createEvent_correct [OF h n, of "''late''" 12 13] a
  have "fst (createEvent ''late'' 12 13 two_events) = next_event_id two_events"
    by simp
  moreover from createEvent_correct [OF h n, of "''clash''" 10 12] b
  have "snd (createEvent ''clash'' 10 12 two_events) = two_events"
    by simp
  ultimately show ?thesis using h n a b by simp
qed


section \<open>The identifier counter\<close>

lemma run_append:
  "run (as @ bs) st =
     (fst (run as st) @ fst (run bs (snd (run as st))), snd (run bs (snd (run as st))))"
  by (induction as arbitrary: st) (simp_all add: split_beta)

lemma int_wrap_id: "- 2147483648 \<le> x \<Longrightarrow> x \<le> 2147483647 \<Longrightarrow> int_wrap x = x"
  by (simp add: int_wrap_def)

lemma int_wrap_succ: "int_wrap (int_wrap x + 1) = int_wrap (x + 1)"
  unfolding int_wrap_def by (simp add: algebra_simps mod_simps)

lemma churn_round:
  "run [Create [] 0 1, Delete c] \<lparr>events = [], next_event_id = c\<rparr> =
     ([Created c, Deleted True], \<lparr>events = [], next_event_id = int_wrap (c + 1)\<rparr>)"
  by (simp add: createEvent_cases hasConflict_def deleteEvent_def findEventById_first
        first_with_id_def set_erase_def Let_def)

lemma run_churn:
  "run (churn n) CalendarService_init =
     (churn_outcomes n, \<lparr>events = [], next_event_id = int_wrap (1 + int n)\<rparr>)"
proof (induction n)
  case 0
  show ?case by (simp add: CalendarService_init_def int_wrap_def)
next
  case (Suc n)
  have "int_wrap (int_wrap (1 + int n) + 1) = int_wrap ((1 + int n) + 1)"
    by (rule int_wrap_succ)
  also have "(1 + int n) + 1 = 1 + int (Suc n)" by simp
  finally have "int_wrap (int_wrap (1 + int n) + 1) = int_wrap (1 + int (Suc n))" .
  with Suc churn_round [of "int_wrap (1 + int n)"] show ?case
    by (simp add: run_append)
qed

lemma run_Cons:
  "fst (run (op # ops) st) = fst (exec op st) # fst (run ops (snd (exec op st)))"
  "snd (run (op # ops) st) = snd (run ops (snd (exec op st)))"
  by (simp_all add: split_beta)

lemma success_ids_Cons: "success_ids (r # rs) = success_ids [r] @ success_ids rs"
  by (cases r) simp_all

lemma exec_step:
  "(fst (exec op st) = Created (next_event_id st) \<and>
    next_event_id (snd (exec op st)) = int_wrap (next_event_id st + 1)) \<or>
   (success_ids [fst (exec op st)] = [] \<and>
    next_event_id (snd (exec op st)) = next_event_id st)"
  by (cases op)
     (simp_all add: createEvent_cases deleteEvent_def getWeeklyEvents_def getAllEvents_eq Let_def)

lemma no_success_counter:
  "next_event_id st \<noteq> - 1 \<Longrightarrow> success_ids (fst (run ops st)) = [] \<Longrightarrow>
   next_event_id (snd (run ops st)) = next_event_id st"
proof (induction ops arbitrary: st)
  case Nil
  then show ?case by simp
next
  case (Cons op ops)
  from Cons.prems(2) have e: "success_ids [fst (exec op st)] = []"
    and r: "success_ids (fst (run ops (snd (exec op st)))) = []"
    using success_ids_Cons [of "fst (exec op st)" "fst (run ops (snd (exec op st)))"]
    by (simp_all del: run.simps(2) add: run_Cons)
  from exec_step [of op st] e Cons.prems(1)
  have n: "next_event_id (snd (exec op st)) = next_event_id st" by auto
  with Cons.IH [OF _ r] Cons.prems(1) show ?case by (simp del: run.simps(2) add: run_Cons)
qed

lemma success_ids_run:
  assumes "1 \<le> next_event_id st" and "next_event_id st \<le> 2147483647"
    and "next_event_id st + int (length (success_ids (fst (run ops st)))) \<le> 2147483648"
  shows "success_ids (fst (run ops st)) =
           [next_event_id st ..
            next_event_id st + int (length (success_ids (fst (run ops st)))) - 1] \<and>
         next_event_id (snd (run ops st)) =
           int_wrap (next_event_id st + int (length (success_ids (fst (run ops st)))))"
  using assms
proof (induction ops arbitrary: st)
  case Nil
  then show ?case by (simp add: int_wrap_id)
next
  case (Cons op ops)
  let ?n = "next_event_id st"
  let ?st' = "snd (exec op st)"
  let ?ids' = "success_ids (fst (run ops ?st'))"
  have split: "success_ids (fst (run (op # ops) st)) = success_ids [fst (exec op st)] @ ?ids'"
    using success_ids_Cons [of "fst (exec op st)" "fst (run ops ?st')"] by (simp del: run.simps(2) add: run_Cons)
  from exec_step [of op st] show ?case
  proof
    assume a: "fst (exec op st) = Created ?n \<and> next_event_id ?st' = int_wrap (?n + 1)"
    with Cons.prems(1) have ids: "success_ids (fst (run (op # ops) st)) = ?n # ?ids'"
      using split by simp
    with Cons.prems(3) have bound: "?n + 1 + int (length ?ids') \<le> 2147483648" by simp
    show ?thesis
    proof (cases "?n < 2147483647")
      case True
      with a Cons.prems(1) have n': "next_event_id ?st' = ?n + 1" by (simp add: int_wrap_id)
      with Cons.IH [of ?st'] True Cons.prems(1) bound
      have ih: "?ids' = [?n + 1 .. ?n + 1 + int (length ?ids') - 1]"
        and ihc: "next_event_id (snd (run ops ?st')) = int_wrap (?n + 1 + int (length ?ids'))"
        by simp_all
      have "[?n .. ?n + int (length ?ids')] = ?n # [?n + 1 .. ?n + int (length ?ids')]"
        by (rule upto_rec1) simp
      with ih have "?n # ?ids' = [?n .. ?n + int (length (?n # ?ids')) - 1]"
        by (simp add: add.commute add.left_commute)
      with ids have g1: "success_ids (fst (run (op # ops) st)) =
          [?n .. ?n + int (length (success_ids (fst (run (op # ops) st)))) - 1]"
        by simp
      have "?n + 1 + int (length ?ids') = ?n + int (length (?n # ?ids'))" by simp
      with ihc ids have g2: "next_event_id (snd (run (op # ops) st)) =
          int_wrap (?n + int (length (success_ids (fst (run (op # ops) st)))))"
        by (simp only: run_Cons)
      from g1 g2 show ?thesis by (rule conjI)
    next
      case False
      with Cons.prems(2) have top: "?n = 2147483647" by simp
      with bound have empty: "?ids' = []" by simp
      from a top have "next_event_id ?st' \<noteq> - 1" by (simp add: int_wrap_def)
      from no_success_counter [OF this empty] a
      have "next_event_id (snd (run ops ?st')) = int_wrap (?n + 1)" by simp
      with ids empty show ?thesis by (simp del: run.simps(2) add: run_Cons)
    qed
  next
    assume b: "success_ids [fst (exec op st)] = [] \<and> next_event_id ?st' = ?n"
    with split have ids: "success_ids (fst (run (op # ops) st)) = ?ids'" by simp
    with Cons.IH [of ?st'] Cons.prems b show ?thesis by (simp del: run.simps(2) add: run_Cons)
  qed
qed

lemma success_ids_append: "success_ids (rs @ rs') = success_ids rs @ success_ids rs'"
proof (induction rs)
  case Nil
  show ?case by simp
next
  case (Cons r rs)
  then show ?case
    using success_ids_Cons [of r "rs @ rs'"] success_ids_Cons [of r rs] by simp
qed

lemma success_ids_init:
  assumes "length (success_ids (fst (run ops CalendarService_init))) \<le> 2147483647"
  shows "success_ids (fst (run ops CalendarService_init)) =
           [1 .. int (length (success_ids (fst (run ops CalendarService_init))))]"
    and "next_event_id (snd (run ops CalendarService_init)) =
           int_wrap (1 + int (length (success_ids (fst (run ops CalendarService_init)))))"
  using success_ids_run [of CalendarService_init ops] assms
  by (simp_all add: CalendarService_init_def)

lemma sample_run:
  "run sample_ops CalendarService_init =
     ([Created 1, Created 2, Created (- 1), Created (- 1), Deleted True, Deleted False, Created 3],
      \<lparr>events = [\<lparr>event_id = 3, title = ''early'', start_utc = 9, end_utc = 11\<rparr>,
                 \<lparr>event_id = 2, title = ''review'', start_utc = 11, end_utc = 12\<rparr>],
       next_event_id = 4\<rparr>)"
  by (simp add: sample_ops_def eval_defs)

text \<open>
  C7 (amended): in any run from the initial service with at most \<open>2^31 - 1\<close> successful
  creations, the identifiers returned by the successful creations start at 1, each is
  strictly greater than all earlier ones, and none occurs twice, whatever deletions and
  queries come in between.
\<close>

theorem identifiers_increase:
  assumes "length (success_ids (fst (run ops CalendarService_init))) \<le> 2147483647"
  shows "sorted_wrt (<) (success_ids (fst (run ops CalendarService_init))) \<and>
         distinct (success_ids (fst (run ops CalendarService_init))) \<and>
         (success_ids (fst (run ops CalendarService_init)) \<noteq> [] \<longrightarrow>
            hd (success_ids (fst (run ops CalendarService_init))) = 1)"
proof -
  let ?ids = "success_ids (fst (run ops CalendarService_init))"
  have eq: "?ids = [1 .. int (length ?ids)]" by (rule success_ids_init(1) [OF assms])
  have "sorted_wrt (<) [1 .. int (length ?ids)]"
    by (simp add: strict_sorted_iff)
  then have s: "sorted_wrt (<) ?ids" using eq by simp
  then have d: "distinct ?ids" by (simp add: strict_sorted_iff)
  have "hd ?ids = 1" if "?ids \<noteq> []"
  proof -
    from that have "1 \<le> int (length ?ids)" by (cases ?ids) simp_all
    then have "[1 .. int (length ?ids)] = 1 # [1 + 1 .. int (length ?ids)]"
      by (rule upto_rec1)
    with eq have "?ids = 1 # [1 + 1 .. int (length ?ids)]" by simp
    then show ?thesis by (metis list.sel(1))
  qed
  with s d show ?thesis by blast
qed

theorem identifiers_increase_witness:
  "length (success_ids (fst (run sample_ops CalendarService_init))) \<le> 2147483647 \<and>
   success_ids (fst (run sample_ops CalendarService_init)) = [1, 2, 3] \<and>
   sorted_wrt (<) (success_ids (fst (run sample_ops CalendarService_init))) \<and>
   distinct (success_ids (fst (run sample_ops CalendarService_init)))"
proof -
  have i: "success_ids (fst (run sample_ops CalendarService_init)) = [1, 2, 3]"
    by (simp add: sample_run)
  then have b: "length (success_ids (fst (run sample_ops CalendarService_init))) \<le> 2147483647"
    by simp
  from identifiers_increase [OF b] i b show ?thesis by blast
qed

text \<open>
  After \<open>2^31 - 1\<close> identifiers the counter wraps: the creation that follows the one
  returning \<open>2147483647\<close> returns \<open>-2147483648\<close>.
\<close>

theorem identifiers_wrap_counterexample:
  "fst (run (churn 2147483646 @ [Create ''a'' 0 1, Create ''b'' 1 2]) CalendarService_init) =
     churn_outcomes 2147483646 @ [Created 2147483647, Created (- 2147483648)] \<and>
   \<not> sorted_wrt (<)
       (success_ids
          (fst (run (churn 2147483646 @ [Create ''a'' 0 1, Create ''b'' 1 2])
                  CalendarService_init)))"
proof -
  have s: "run (churn 2147483646) CalendarService_init =
      (churn_outcomes 2147483646, \<lparr>events = [], next_event_id = 2147483647\<rparr>)"
    using run_churn [of 2147483646] by (simp add: int_wrap_def)
  have "run [Create ''a'' 0 1, Create ''b'' 1 2] \<lparr>events = [], next_event_id = 2147483647\<rparr> =
      ([Created 2147483647, Created (- 2147483648)],
       \<lparr>events = [\<lparr>event_id = 2147483647, title = ''a'', start_utc = 0, end_utc = 1\<rparr>,
                  \<lparr>event_id = - 2147483648, title = ''b'', start_utc = 1, end_utc = 2\<rparr>],
        next_event_id = - 2147483647\<rparr>)"
    by (simp add: eval_defs)
  with s have r: "fst (run (churn 2147483646 @ [Create ''a'' 0 1, Create ''b'' 1 2])
                    CalendarService_init) =
      churn_outcomes 2147483646 @ [Created 2147483647, Created (- 2147483648)]"
    by (simp add: run_append)
  have "\<not> sorted_wrt (<) (success_ids (churn_outcomes 2147483646) @ [2147483647, - 2147483648])"
    by (simp add: sorted_wrt_append)
  then show ?thesis unfolding r by (simp add: success_ids_append)
qed

text \<open>
  C10 (amended): a creation refused for an invalid interval or a conflict returns \<open>-1\<close>
  and leaves the state, the counter included, as it was; and in any run from the initial
  service with at most \<open>2^31 - 1\<close> successful creations, the identifiers returned by
  the successful creations are exactly \<open>1, 2, \<dots>, k\<close> in order, \<open>k\<close> being their number,
  and the counter has advanced by exactly \<open>k\<close>.
\<close>

theorem identifiers_consecutive:
  assumes "length (success_ids (fst (run ops CalendarService_init))) \<le> 2147483647"
  shows "success_ids (fst (run ops CalendarService_init)) =
           [1 .. int (length (success_ids (fst (run ops CalendarService_init))))] \<and>
         next_event_id (snd (run ops CalendarService_init)) =
           int_wrap (1 + int (length (success_ids (fst (run ops CalendarService_init))))) \<and>
         (e \<le> s \<or> hasConflict st s e \<longrightarrow> createEvent ttl s e st = (- 1, st))"
  using success_ids_init [OF assms] by (simp add: createEvent_cases)

theorem identifiers_consecutive_witness:
  "length (success_ids (fst (run sample_ops CalendarService_init))) \<le> 2147483647 \<and>
   success_ids (fst (run sample_ops CalendarService_init)) = [1, 2, 3] \<and>
   next_event_id (snd (run sample_ops CalendarService_init)) = 4 \<and>
   hasConflict two_events 10 12 \<and>
   createEvent ''clash'' 10 12 two_events = (- 1, two_events)"
proof -
  have i: "success_ids (fst (run sample_ops CalendarService_init)) = [1, 2, 3]"
    by (simp add: sample_run)
  then have b: "length (success_ids (fst (run sample_ops CalendarService_init))) \<le> 2147483647"
    by simp
  have c: "hasConflict two_events 10 12"
    by (simp add: two_events_def eval_defs)
  from identifiers_consecutive [OF b, of 12 10 two_events "''clash''"] c
  have "createEvent ''clash'' 10 12 two_events = (- 1, two_events)"
    and "next_event_id (snd (run sample_ops CalendarService_init)) =
           int_wrap (1 + int (length (success_ids (fst (run sample_ops CalendarService_init)))))"
    by blast+
  with i b c show ?thesis by (simp add: int_wrap_def)
qed

text \<open>
  The \<open>2^31\<close>-th successful creation of a run returns \<open>-2147483648\<close>, which is none of
  \<open>1, 2, 3, \<dots>\<close>.
\<close>

theorem identifiers_not_consecutive_counterexample:
  "- 2147483648 \<in>
     set (success_ids (fst (run (churn 2147483647 @ [Create [] 0 1]) CalendarService_init)))"
proof -
  have s: "run (churn 2147483647) CalendarService_init =
      (churn_outcomes 2147483647, \<lparr>events = [], next_event_id = - 2147483648\<rparr>)"
    using run_churn [of 2147483647] by (simp add: int_wrap_def)
  have "run [Create [] 0 1] \<lparr>events = [], next_event_id = - 2147483648\<rparr> =
      ([Created (- 2147483648)],
       \<lparr>events = [\<lparr>event_id = - 2147483648, title = [], start_utc = 0, end_utc = 1\<rparr>],
        next_event_id = - 2147483647\<rparr>)"
    by (simp add: eval_defs)
  with s have "fst (run (churn 2147483647 @ [Create [] 0 1]) CalendarService_init) =
      churn_outcomes 2147483647 @ [Created (- 2147483648)]"
    by (simp add: run_append)
  then show ?thesis by (simp add: success_ids_append)
qed

text \<open>
  When the counter has wrapped round to \<open>-1\<close>, a creation that stores its event returns
  \<open>-1\<close>, the failure value.
\<close>

theorem createEvent_sentinel_counterexample:
  "events (snd (run (churn 4294967294) CalendarService_init)) = [] \<and>
   createEvent [] 0 1 (snd (run (churn 4294967294) CalendarService_init)) =
     (- 1, \<lparr>events = [\<lparr>event_id = - 1, title = [], start_utc = 0, end_utc = 1\<rparr>],
           next_event_id = 0\<rparr>)"
proof -
  have s: "run (churn 4294967294) CalendarService_init =
      (churn_outcomes 4294967294, \<lparr>events = [], next_event_id = - 1\<rparr>)"
    using run_churn [of 4294967294] by (simp add: int_wrap_def)
  show ?thesis unfolding s by (simp add: eval_defs)
qed


section \<open>Titles play no role\<close>

lemma untitled_fields:
  "untitled a = untitled b \<Longrightarrow>
   event_id a = event_id b \<and> start_utc a = start_utc b \<and> end_utc a = end_utc b"
  by (simp add: untitled_def)

lemma untitled_nth:
  "map untitled xs = map untitled ys \<Longrightarrow> i < length xs \<Longrightarrow> untitled (xs ! i) = untitled (ys ! i)"
  by (metis length_map nth_map)

lemma untitled_length: "map untitled xs = map untitled ys \<Longrightarrow> length xs = length ys"
  by (rule map_eq_imp_length_eq)

lemma comparator_untitled:
  "untitled a = untitled a' \<Longrightarrow> untitled b = untitled b' \<Longrightarrow>
   EventComparator a b = EventComparator a' b'"
  by (simp add: untitled_def EventComparator_def)

lemma lower_bound_untitled:
  "map untitled xs = map untitled ys \<Longrightarrow> untitled k = untitled k' \<Longrightarrow>
   lower_bound xs k = lower_bound ys k'"
proof (induction xs arbitrary: ys)
  case Nil
  then show ?case by simp
next
  case (Cons x xs)
  then obtain y ys' where ys: "ys = y # ys'" by (cases ys) auto
  with Cons.prems have "untitled x = untitled y" "map untitled xs = map untitled ys'"
    by simp_all
  with Cons.IH [of ys'] Cons.prems(2) ys comparator_untitled [of x y k k']
  show ?case by simp
qed

lemma set_insert_untitled:
  "map untitled xs = map untitled ys \<Longrightarrow> untitled v = untitled v' \<Longrightarrow>
   map untitled (set_insert v xs) = map untitled (set_insert v' ys)"
proof (induction xs arbitrary: ys)
  case Nil
  then show ?case by simp
next
  case (Cons x xs)
  then obtain y ys' where ys: "ys = y # ys'" by (cases ys) auto
  with Cons.prems have h: "untitled x = untitled y" "map untitled xs = map untitled ys'"
    by simp_all
  with Cons.IH [of ys'] Cons.prems(2) ys
    comparator_untitled [of x y v v'] comparator_untitled [of v v' x y]
  show ?case by simp
qed

lemma first_with_id_untitled:
  "map untitled xs = map untitled ys \<Longrightarrow> first_with_id xs eid = first_with_id ys eid"
proof (induction xs arbitrary: ys)
  case Nil
  then show ?case by (simp add: first_with_id_def)
next
  case (Cons x xs)
  then obtain y ys' where ys: "ys = y # ys'" by (cases ys) auto
  with Cons.prems have h: "untitled x = untitled y" "map untitled xs = map untitled ys'"
    by simp_all
  with Cons.IH [of ys'] ys untitled_fields [of x y]
  show ?case by (simp add: first_with_id_def)
qed

lemma take_untitled:
  "map untitled xs = map untitled ys \<Longrightarrow> map untitled (take k xs) = map untitled (take k ys)"
  by (simp flip: take_map)

lemma drop_untitled:
  "map untitled xs = map untitled ys \<Longrightarrow> map untitled (drop k xs) = map untitled (drop k ys)"
  by (simp flip: drop_map)

lemma set_erase_untitled:
  "map untitled xs = map untitled ys \<Longrightarrow>
   map untitled (set_erase k xs) = map untitled (set_erase k ys)"
  using take_untitled [of xs ys k] drop_untitled [of xs ys "Suc k"]
  by (simp add: set_erase_def)

lemma hasConflict_untitled:
  assumes "agree st st'"
  shows "hasConflict st s e = hasConflict st' s e"
proof -
  let ?k = "\<lparr>event_id = 0, title = [], start_utc = s, end_utc = e\<rparr>"
  from assms have m: "map untitled (events st) = map untitled (events st')"
    by (simp add: agree_def)
  then have l: "length (events st) = length (events st')" by (rule untitled_length)
  from m have p: "lower_bound (events st) ?k = lower_bound (events st') ?k"
    by (rule lower_bound_untitled) simp
  have f: "start_utc (events st ! i) = start_utc (events st' ! i) \<and>
           end_utc (events st ! i) = end_utc (events st' ! i)"
    if "i < length (events st)" for i
    using untitled_fields [OF untitled_nth [OF m that]] by simp
  let ?p = "lower_bound (events st') ?k"
  have a: "?p \<noteq> length (events st') \<Longrightarrow> ?p < length (events st)"
    using lower_bound_le [of "events st'" ?k] l by simp
  have b: "?p \<noteq> 0 \<Longrightarrow> ?p - 1 < length (events st)"
    using lower_bound_le [of "events st'" ?k] l by simp
  show ?thesis
    unfolding hasConflict_def Let_def p l
    using f [OF a] f [OF b] by auto
qed

lemma takeWhile_untitled:
  "map untitled (takeWhile (\<lambda>ev. start_utc ev < we) xs) =
   takeWhile (\<lambda>(i, s, e). s < we) (map untitled xs)"
  by (induction xs) (simp_all add: untitled_def)

lemma getWeeklyEvents_untitled:
  assumes "agree st st'"
  shows "map untitled (fst (getWeeklyEvents ws we st)) =
         map untitled (fst (getWeeklyEvents ws we st'))"
proof -
  let ?k = "\<lparr>event_id = 0, title = [], start_utc = ws, end_utc = ws\<rparr>"
  from assms have m: "map untitled (events st) = map untitled (events st')"
    by (simp add: agree_def)
  then have l: "length (events st) = length (events st')" by (rule untitled_length)
  from m have p: "lower_bound (events st) ?k = lower_bound (events st') ?k"
    by (rule lower_bound_untitled) simp
  let ?p = "lower_bound (events st') ?k"
  have b: "?p - 1 < length (events st)" if "?p \<noteq> 0"
    using that lower_bound_le [of "events st'" ?k] l by simp
  have u: "untitled (events st ! (?p - 1)) = untitled (events st' ! (?p - 1))" if "?p \<noteq> 0"
    by (rule untitled_nth [OF m b [OF that]])
  have t: "map untitled (takeWhile (\<lambda>ev. start_utc ev < we) (drop ?p (events st))) =
           map untitled (takeWhile (\<lambda>ev. start_utc ev < we) (drop ?p (events st')))"
    using drop_untitled [OF m, of ?p] by (simp add: takeWhile_untitled)
  show ?thesis
    unfolding getWeeklyEvents_eval Let_def p
    using u untitled_fields [OF u] t by auto
qed

lemma exec_untitled:
  assumes "agree st st'" and "same_but_title op op'"
  shows "same_outcome (fst (exec op st)) (fst (exec op' st')) \<and>
         agree (snd (exec op st)) (snd (exec op' st'))"
proof (cases op)
  case (Create ttl s e)
  with assms(2) obtain ttl' where op': "op' = Create ttl' s e" by (cases op') auto
  from assms(1) have m: "map untitled (events st) = map untitled (events st')"
    and n: "next_event_id st = next_event_id st'" by (simp_all add: agree_def)
  have "map untitled (set_insert \<lparr>event_id = next_event_id st', title = ttl, start_utc = s, end_utc = e\<rparr> (events st)) =
        map untitled (set_insert \<lparr>event_id = next_event_id st', title = ttl', start_utc = s, end_utc = e\<rparr> (events st'))"
    using m by (rule set_insert_untitled) (simp add: untitled_def)
  with Create op' assms(1) n hasConflict_untitled [OF assms(1), of s e]
  show ?thesis by (simp add: createEvent_cases agree_def)
next
  case (Delete eid)
  with assms(2) have op': "op' = Delete eid" by (cases op') auto
  from assms(1) have m: "map untitled (events st) = map untitled (events st')"
    by (simp add: agree_def)
  with Delete op' assms(1) first_with_id_untitled [OF m, of eid] untitled_length [OF m]
    set_erase_untitled [OF m]
  show ?thesis by (simp add: deleteEvent_def findEventById_first Let_def agree_def)
next
  case (Weekly ws we)
  with assms(2) have op': "op' = Weekly ws we" by (cases op') auto
  with Weekly assms(1) getWeeklyEvents_untitled [OF assms(1), of ws we]
  show ?thesis by (simp add: split_beta getWeeklyEvents_state)
next
  case Snapshot
  with assms(2) have op': "op' = Snapshot" by (cases op') auto
  with Snapshot assms(1) show ?thesis by (simp add: getAllEvents_eq agree_def)
qed

lemma run_untitled:
  "list_all2 same_but_title ops ops' \<Longrightarrow> agree st st' \<Longrightarrow>
   list_all2 same_outcome (fst (run ops st)) (fst (run ops' st')) \<and>
   agree (snd (run ops st)) (snd (run ops' st'))"
proof (induction ops ops' arbitrary: st st' rule: list_all2_induct)
  case Nil
  then show ?case by simp
next
  case (Cons op ops op' ops')
  from exec_untitled [OF Cons.prems Cons.hyps(1)]
  have o: "same_outcome (fst (exec op st)) (fst (exec op' st'))"
    and a: "agree (snd (exec op st)) (snd (exec op' st'))" by simp_all
  from Cons.IH [OF a] o show ?case by (simp add: split_beta)
qed

text \<open>
  C9: two runs from the initial service whose operations differ at most in the titles
  passed to \<^verbatim>\<open>createEvent\<close> return, operation by operation, the same identifier or
  failure value, the same deletion result and the same events up to titles, and end in
  stores with the same (identifier, start, end) triples in the same order and the same
  counter.
\<close>

theorem title_noninterference:
  assumes "list_all2 same_but_title ops ops'"
  shows "list_all2 same_outcome (fst (run ops CalendarService_init))
           (fst (run ops' CalendarService_init)) \<and>
         map untitled (events (snd (run ops CalendarService_init))) =
           map untitled (events (snd (run ops' CalendarService_init))) \<and>
         next_event_id (snd (run ops CalendarService_init)) =
           next_event_id (snd (run ops' CalendarService_init))"
proof -
  have "agree CalendarService_init CalendarService_init" by (simp add: agree_def)
  from run_untitled [OF assms this] show ?thesis by (simp add: agree_def)
qed

theorem title_noninterference_witness:
  "list_all2 same_but_title sample_ops retitled_ops \<and>
   list_all2 same_outcome (fst (run sample_ops CalendarService_init))
     (fst (run retitled_ops CalendarService_init)) \<and>
   map untitled (events (snd (run retitled_ops CalendarService_init))) = [(3, 9, 11), (2, 11, 12)]"
proof -
  have h: "list_all2 same_but_title sample_ops retitled_ops"
    by (simp add: sample_ops_def retitled_ops_def)
  from title_noninterference [OF h]
  have "list_all2 same_outcome (fst (run sample_ops CalendarService_init))
     (fst (run retitled_ops CalendarService_init))"
    and "map untitled (events (snd (run retitled_ops CalendarService_init))) =
           map untitled (events (snd (run sample_ops CalendarService_init)))"
    by simp_all
  with h show ?thesis by (simp add: sample_run untitled_def)
qed


section \<open>Overlapping creations one after the other\<close>

lemma created_event_stored:
  assumes inv: "store_inv (events st)" and se: "s < e" and nc: "\<not> hasConflict st s e"
  shows "\<lparr>event_id = next_event_id st, title = ttl, start_utc = s, end_utc = e\<rparr>
           \<in> set (events (snd (createEvent ttl s e st)))"
proof -
  let ?v = "\<lparr>event_id = next_event_id st, title = ttl, start_utc = s, end_utc = e\<rparr>"
  from inv have va: "valid_intervals (events st)" by (simp add: store_inv_chained)
  from se have sv: "start_utc ?v < end_utc ?v" by simp
  from nc hasConflict_iff [OF inv, of s e]
  have "\<forall>ev \<in> set (events st). \<not> conflicts_with (start_utc ?v) (end_utc ?v) ev" by simp
  from mset_set_insert [OF no_conflict_comparable [OF va sv this]]
  have "?v \<in># mset (set_insert ?v (events st))" by simp
  then have "?v \<in> set (set_insert ?v (events st))" by simp
  with se nc show ?thesis by (simp add: createEvent_cases)
qed

text \<open>
  Two creations with overlapping intervals, run one after the other on a store where
  the first does not conflict: the first stores its event and returns the counter's
  value, the second is refused.
\<close>

lemma overlapping_creations_in_sequence:
  assumes inv: "store_inv (events st)"
    and v1: "s1 < e1" and v2: "s2 < e2" and ov: "s1 < e2" "s2 < e1"
    and nc: "\<not> hasConflict st s1 e1"
  shows "fst (createEvent ttl1 s1 e1 st) = next_event_id st \<and>
         createEvent ttl2 s2 e2 (snd (createEvent ttl1 s1 e1 st)) =
           (- 1, snd (createEvent ttl1 s1 e1 st))"
proof -
  let ?st1 = "snd (createEvent ttl1 s1 e1 st)"
  let ?v = "\<lparr>event_id = next_event_id st, title = ttl1, start_utc = s1, end_utc = e1\<rparr>"
  have i1: "store_inv (events ?st1)" by (rule createEvent_inv [OF inv])
  have "?v \<in> set (events ?st1)" by (rule created_event_stored [OF inv v1 nc])
  moreover have "conflicts_with s2 e2 ?v" using ov by (simp add: conflicts_with_def)
  ultimately have "hasConflict ?st1 s2 e2"
    using hasConflict_iff [OF i1, of s2 e2] by blast
  then have "createEvent ttl2 s2 e2 ?st1 = (- 1, ?st1)" by (simp add: createEvent_cases)
  moreover have "fst (createEvent ttl1 s1 e1 st) = next_event_id st"
    using v1 nc by (simp add: createEvent_cases)
  ultimately show ?thesis by simp
qed


end
